theory Spec2Isabelle
  imports Main "HOL-Library.AList" "HOL-Library.Multiset"
begin

section \<open>Python strings and the regular expressions of ORFixForComplexMods.py\<close>

text \<open>
  A Python \<open>str\<close> is modelled as a \<open>string\<close>; each \<open>char\<close> stands for one code point
  below 256, so \<open>length\<close> counts what Python's \<open>len\<close> counts on such text. A line is one
  element of \<open>readlines()\<close>, with its line terminator \<open>CHR 0x0A\<close> kept.

  \<open>isspace\<close> lists the code points below 256 that \<open>str.strip\<close>, \<open>str.lstrip\<close> and the
  regular expression class \<open>\s\<close> treat as whitespace; \<open>isdigit\<close> is the class \<open>\d\<close>.
\<close>

definition isspace :: "char \<Rightarrow> bool" where
  "isspace c = (c \<in> set [CHR 0x09, CHR 0x0A, CHR 0x0B, CHR 0x0C, CHR 0x0D,
                          CHR 0x1C, CHR 0x1D, CHR 0x1E, CHR 0x1F, CHR 0x20,
                          CHR 0x85, CHR 0xA0])"

definition isdigit :: "char \<Rightarrow> bool" where
  "isdigit c = (c \<in> set ''0123456789'')"

definition lstrip :: "string \<Rightarrow> string" where
  "lstrip s = dropWhile isspace s"

definition rstrip :: "string \<Rightarrow> string" where
  "rstrip s = rev (dropWhile isspace (rev s))"

definition strip :: "string \<Rightarrow> string" where
  "strip s = rstrip (lstrip s)"

definition startswith :: "string \<Rightarrow> string \<Rightarrow> bool" where
  "startswith s p = (take (length p) s = p)"

text \<open>\<open>contains sub s\<close> is Python's \<open>sub in s\<close>.\<close>

fun contains :: "string \<Rightarrow> string \<Rightarrow> bool" where
  "contains sub [] = (sub = [])"
| "contains sub (c # cs) = (startswith (c # cs) sub \<or> contains sub cs)"

text \<open>\<open>replace_first old new s\<close> is \<open>s.replace(old, new, 1)\<close>.\<close>

fun replace_first :: "string \<Rightarrow> string \<Rightarrow> string \<Rightarrow> string" where
  "replace_first old new [] = (if old = [] then new else [])"
| "replace_first old new (c # cs) =
     (if startswith (c # cs) old then new @ drop (length old) (c # cs)
      else c # replace_first old new cs)"

text \<open>
  Under \<open>re.IGNORECASE\<close> an ASCII letter of a pattern matches exactly its two ASCII cases
  among the code points below 256.
\<close>

definition ascii_lower :: "char \<Rightarrow> char" where
  "ascii_lower c =
     (case map_of (zip ''ABCDEFGHIJKLMNOPQRSTUVWXYZ'' ''abcdefghijklmnopqrstuvwxyz'') c of
        None \<Rightarrow> c | Some l \<Rightarrow> l)"

text \<open>
  Matching a literal at the head of the remaining input returns the rest of the input.
  \<open>skip_ws\<close> is a greedy \<open>\s*\<close>: in every pattern of the program it is followed by a
  literal that is not whitespace, so giving whitespace back can never help a match.
\<close>

definition lit :: "string \<Rightarrow> string \<Rightarrow> string option" where
  "lit p s = (if startswith s p then Some (drop (length p) s) else None)"

definition lit_ci :: "string \<Rightarrow> string \<Rightarrow> string option" where
  "lit_ci p s =
     (if map ascii_lower (take (length p) s) = map ascii_lower p
      then Some (drop (length p) s) else None)"

definition skip_ws :: "string \<Rightarrow> string" where
  "skip_ws s = dropWhile isspace s"

definition newline :: char where
  "newline = CHR 0x0A"

definition backslash :: char where
  "backslash = CHR 0x5C"

text \<open>
  \<open>AUTO_EXCLUDE_PATTERNS\<close>: \<open>^\[(CommandList|TextureOverride).*Suffix\]$\<close>, ignoring case.
  \<open>.\<close> matches every character but the newline, and \<open>$\<close> matches at the end of the
  string or just before a newline that ends it.
\<close>

definition tail_ok :: "string \<Rightarrow> string \<Rightarrow> bool" where
  "tail_ok p s = (case lit_ci p s of None \<Rightarrow> False | Some t \<Rightarrow> t = [] \<or> t = [newline])"

fun dotstar_then :: "string \<Rightarrow> string \<Rightarrow> bool" where
  "dotstar_then p [] = tail_ok p []"
| "dotstar_then p (c # cs) = (tail_ok p (c # cs) \<or> (c \<noteq> newline \<and> dotstar_then p cs))"

definition auto_exclude_pattern :: "string \<Rightarrow> string \<Rightarrow> bool" where
  "auto_exclude_pattern suffix s =
     (case lit ''['' s of
        None \<Rightarrow> False
      | Some r0 \<Rightarrow>
          (case (case lit_ci ''CommandList'' r0 of
                   Some r \<Rightarrow> Some r
                 | None \<Rightarrow> lit_ci ''TextureOverride'' r0) of
             None \<Rightarrow> False
           | Some r \<Rightarrow> dotstar_then (suffix @ '']'') r))"

definition AUTO_EXCLUDE_PATTERNS :: "(string \<Rightarrow> bool) list" where
  "AUTO_EXCLUDE_PATTERNS =
     map auto_exclude_pattern
       [''IB'', ''Position'', ''Texcoord'', ''Blend'', ''Info'', ''VertexLimitRaise'']"

text \<open>
  \<open>SWAPVAR_PATTERN\<close>: \<open>^\s*(if|else if)\s+\$swapvar\s*==\s*(\d+)\<close>, ignoring case.
  The result is group 2 of the match.
\<close>

definition SWAPVAR_PATTERN :: "string \<Rightarrow> string option" where
  "SWAPVAR_PATTERN line =
     (let s0 = skip_ws line in
      case (case lit_ci ''if'' s0 of Some r \<Rightarrow> Some r | None \<Rightarrow> lit_ci ''else if'' s0) of
        None \<Rightarrow> None
      | Some r1 \<Rightarrow>
          (case takeWhile isspace r1 of
             [] \<Rightarrow> None
           | w # ws \<Rightarrow>
               (case lit_ci ''$swapvar'' (skip_ws r1) of
                  None \<Rightarrow> None
                | Some r2 \<Rightarrow>
                    (case lit ''=='' (skip_ws r2) of
                       None \<Rightarrow> None
                     | Some r3 \<Rightarrow>
                         (case takeWhile isdigit (skip_ws r3) of
                            [] \<Rightarrow> None
                          | d # ds \<Rightarrow> Some (d # ds))))))"

text \<open>
  \<open>RUN_LINE_PATTERN\<close>: \<open>\s*run\s*=\s*CommandList\\global\\ORFix\\(NNFix|ORFix)\<close>, ignoring
  case, matched at the start of the line.
\<close>

definition ORFix_path :: string where
  "ORFix_path = ''CommandList'' @ [backslash] @ ''global'' @ [backslash] @ ''ORFix'' @ [backslash]"

definition RUN_LINE_PATTERN :: "string \<Rightarrow> bool" where
  "RUN_LINE_PATTERN line =
     (case lit_ci ''run'' (skip_ws line) of
        None \<Rightarrow> False
      | Some r1 \<Rightarrow>
          (case lit ''='' (skip_ws r1) of
             None \<Rightarrow> False
           | Some r2 \<Rightarrow>
               (case lit_ci ORFix_path (skip_ws r2) of
                  None \<Rightarrow> False
                | Some r3 \<Rightarrow>
                    (case lit_ci ''NNFix'' r3 of
                       Some r4 \<Rightarrow> True
                     | None \<Rightarrow> (case lit_ci ''ORFix'' r3 of Some r4 \<Rightarrow> True | None \<Rightarrow> False)))))"

text \<open>The inline patterns: \<open>ps-t0\s*=\<close>, \<open>ps-t\d+\<close> and \<open>\s*endif\<close> (ignoring case).\<close>

definition ps_t0_assign :: "string \<Rightarrow> bool" where
  "ps_t0_assign s = (case lit ''ps-t0'' s of None \<Rightarrow> False | Some r \<Rightarrow> lit ''='' (skip_ws r) \<noteq> None)"

definition ps_t_digits :: "string \<Rightarrow> bool" where
  "ps_t_digits s =
     (case lit ''ps-t'' s of
        None \<Rightarrow> False
      | Some r \<Rightarrow> (case takeWhile isdigit r of [] \<Rightarrow> False | d # ds \<Rightarrow> True))"

definition endif_pattern :: "string \<Rightarrow> bool" where
  "endif_pattern line = (lit_ci ''endif'' (skip_ws line) \<noteq> None)"

section \<open>process_block_full\<close>

text \<open>
  A change record is one formatted message of the source: the section name
  (\<open>None\<close> before the first header), the kind, and the texts put into the message.
\<close>

datatype change =
    RENAMED "string option" string string
  | REMOVED "string option" string
  | ADDED "string option" string

definition run_ORFix :: string where
  "run_ORFix = ''run = '' @ ORFix_path @ ''ORFix'' @ [newline]"

definition run_NNFix :: string where
  "run_NNFix = ''run = '' @ ORFix_path @ ''NNFix'' @ [newline]"

definition correct_run_of :: "string list \<Rightarrow> string" where
  "correct_run_of block =
     (if list_ex (contains ''NormalMap'') block then run_ORFix else run_NNFix)"

definition indent_of :: "string \<Rightarrow> nat" where
  "indent_of line = length line - length (lstrip line)"

definition rename_cond :: "bool \<Rightarrow> string \<Rightarrow> bool" where
  "rename_cond rename_extra_ps stripped =
     (rename_extra_ps \<and> ps_t0_assign stripped \<and> contains ''Extra'' stripped
      \<and> contains ''Diffuse'' stripped)"

text \<open>
  The first loop: renaming, and the dictionary \<open>last_ps_indices\<close> from an indentation
  to the index in \<open>new_block\<close> of the last \<open>ps-t\<close> line with it. The dictionary is an
  association list in insertion order.
\<close>

fun rename_loop ::
  "bool \<Rightarrow> string option \<Rightarrow> string list \<Rightarrow>
   string list \<times> change list \<times> (nat \<times> nat) list \<Rightarrow>
   string list \<times> change list \<times> (nat \<times> nat) list" where
  "rename_loop rn sec [] st = st"
| "rename_loop rn sec (line # rest) (new_block, changes, last_ps_indices) =
     (let stripped = lstrip line;
          indent = length line - length stripped;
          (new_block', changes') =
             (if rename_cond rn stripped
              then (new_block @ [replace_first ''ps-t0'' ''ps-t1'' line],
                    changes @ [RENAMED sec stripped (replace_first ''ps-t0'' ''ps-t1'' stripped)])
              else (new_block @ [line], changes));
          last_ps_indices' =
             (if ps_t_digits stripped
              then AList.update indent (length new_block' - 1) last_ps_indices
              else last_ps_indices)
      in rename_loop rn sec rest (new_block', changes', last_ps_indices'))"

text \<open>The second loop: a run line stays only right after the recorded index of its
  indentation and only when it is the correct run line.\<close>

fun remove_loop ::
  "string option \<Rightarrow> string \<Rightarrow> (nat \<times> nat) list \<Rightarrow> nat \<Rightarrow> string list \<Rightarrow>
   string list \<times> change list \<Rightarrow> string list \<times> change list" where
  "remove_loop sec correct_run lp i [] st = st"
| "remove_loop sec correct_run lp i (line # rest) (temp_block, changes) =
     (if RUN_LINE_PATTERN line
      then (let indent = length line - length (lstrip line) in
            if (case map_of lp indent of None \<Rightarrow> False | Some j \<Rightarrow> i = j + 1)
               \<and> line = correct_run
            then remove_loop sec correct_run lp (Suc i) rest (temp_block @ [line], changes)
            else remove_loop sec correct_run lp (Suc i) rest
                   (temp_block, changes @ [REMOVED sec (strip line)]))
      else remove_loop sec correct_run lp (Suc i) rest (temp_block @ [line], changes))"

text \<open>
  \<open>list_insert\<close> is \<open>list.insert\<close>: an index beyond the end appends.
  The third loop runs over \<open>sorted(last_ps_indices.items())\<close>, a list built once before
  the loop; the updates of the dictionary inside the loop do not reach it.
\<close>

definition list_insert :: "nat \<Rightarrow> 'a \<Rightarrow> 'a list \<Rightarrow> 'a list" where
  "list_insert i x xs = take i xs @ [x] @ drop i xs"

fun insert_loop ::
  "string option \<Rightarrow> string \<Rightarrow> (nat \<times> nat) list \<Rightarrow>
   string list \<times> change list \<times> (nat \<times> nat) list \<Rightarrow>
   string list \<times> change list \<times> (nat \<times> nat) list" where
  "insert_loop sec correct_run [] st = st"
| "insert_loop sec correct_run ((indent, last_index) # items) (new_block, changes, lp) =
     (let insert_index = last_index + 1 in
      if \<not> (length new_block > insert_index \<and> new_block ! insert_index = correct_run)
      then insert_loop sec correct_run items
             (list_insert insert_index correct_run new_block,
              changes @ [ADDED sec (strip correct_run)],
              map (\<lambda>(k, v). (k, if v \<ge> insert_index then v + 1 else v)) lp)
      else insert_loop sec correct_run items (new_block, changes, lp))"

definition process_block_full ::
  "bool \<Rightarrow> string list \<Rightarrow> string option \<Rightarrow> bool \<Rightarrow> string list \<times> change list" where
  "process_block_full rename_extra_ps block section_name is_excluded =
     (if block = [] \<or> is_excluded then (block, [])
      else
        (let correct_run = correct_run_of block;
             (new_block, changes, last_ps_indices) =
                rename_loop rename_extra_ps section_name block ([], [], []);
             (temp_block, changes2) =
                remove_loop section_name correct_run last_ps_indices 0 new_block ([], changes);
             (new_block3, changes3, lp3) =
                insert_loop section_name correct_run (sort_key fst last_ps_indices)
                  (temp_block, changes2, last_ps_indices)
         in (new_block3, changes3)))"

section \<open>process_ini_preview\<close>

text \<open>
  The local variables of \<open>process_ini_preview\<close>. The function is modelled from the list
  \<open>lines\<close> on; \<open>rename_extra_ps\<close>, a global of the source (\<open>None\<close> or \<open>False\<close> disable the
  renaming), is a parameter.
\<close>

record tok_state =
  new_lines :: "string list"
  block_lines :: "string list"
  current_section :: "string option"
  inside_section :: bool
  inside_excluded :: bool
  current_swapvar :: "string option"
  all_changes :: "change list"

definition init_state :: tok_state where
  "init_state =
     \<lparr>new_lines = [], block_lines = [], current_section = None, inside_section = False,
      inside_excluded = False, current_swapvar = None, all_changes = []\<rparr>"

definition is_header :: "string \<Rightarrow> bool" where
  "is_header stripped =
     (startswith stripped ''[CommandList'' \<or> startswith stripped ''[TextureOverride'')"

text \<open>The value given to \<open>inside_excluded\<close> at a header.\<close>

definition section_excluded :: "string \<Rightarrow> string set \<Rightarrow> bool" where
  "section_excluded current exclude_sections =
     (list_ex (\<lambda>pat. pat current) AUTO_EXCLUDE_PATTERNS \<or> current \<in> exclude_sections)"

text \<open>The four statements that process the pending block and clear it.\<close>

definition flush :: "bool \<Rightarrow> tok_state \<Rightarrow> tok_state" where
  "flush rn st =
     (let (processed, changes) =
            process_block_full rn (block_lines st) (current_section st) (inside_excluded st)
      in st\<lparr>new_lines := new_lines st @ processed,
            all_changes := all_changes st @ changes,
            block_lines := []\<rparr>)"

definition flush_pending :: "bool \<Rightarrow> tok_state \<Rightarrow> tok_state" where
  "flush_pending rn st = (if block_lines st = [] then st else flush rn st)"

text \<open>One iteration of the loop over the lines.\<close>

definition step :: "bool \<Rightarrow> string set \<Rightarrow> tok_state \<Rightarrow> string \<Rightarrow> tok_state" where
  "step rn exclude_sections st line =
     (let stripped = strip line in
      if is_header stripped
      then (let st1 = flush_pending rn st in
            st1\<lparr>current_section := Some stripped,
                inside_section := True,
                inside_excluded := section_excluded stripped exclude_sections,
                current_swapvar := None,
                new_lines := new_lines st1 @ [line]\<rparr>)
      else (case SWAPVAR_PATTERN line of
              Some g \<Rightarrow>
                (let st1 = flush_pending rn st in
                 st1\<lparr>current_swapvar := Some g, block_lines := block_lines st1 @ [line]\<rparr>)
            | None \<Rightarrow>
                if inside_section st \<and> endif_pattern line
                then (flush rn (st\<lparr>block_lines := block_lines st @ [line]\<rparr>))
                       \<lparr>current_swapvar := None\<rparr>
                else if inside_section st
                then st\<lparr>block_lines := block_lines st @ [line]\<rparr>
                else st\<lparr>new_lines := new_lines st @ [line]\<rparr>))"

definition process_ini_preview ::
  "bool \<Rightarrow> string list \<Rightarrow> string set \<Rightarrow> change list \<times> string list" where
  "process_ini_preview rn lines exclude_sections =
     (let st = flush_pending rn (foldl (step rn exclude_sections) init_state lines)
      in (all_changes st, new_lines st))"

section \<open>The specification's view of the two components\<close>

text \<open>
  The rename rule in the specification's words: a line whose text after the leading
  whitespace matches \<open>ps-t0\s*=\<close> and which contains both \<open>Extra\<close> and \<open>Diffuse\<close> has
  the first occurrence of \<open>ps-t0\<close> rewritten to \<open>ps-t1\<close>, when the option is enabled, and
  a record is made of it; every other line is left as it is.
\<close>

definition rename_applies :: "bool \<Rightarrow> string \<Rightarrow> bool" where
  "rename_applies rn l =
     (rn \<and> ps_t0_assign (lstrip l) \<and> contains ''Extra'' l \<and> contains ''Diffuse'' l)"

definition renamed_line :: "bool \<Rightarrow> string \<Rightarrow> string" where
  "renamed_line rn l =
     (if rename_applies rn l then replace_first ''ps-t0'' ''ps-t1'' l else l)"

definition renamed_record :: "string option \<Rightarrow> string \<Rightarrow> change" where
  "renamed_record sec l =
     RENAMED sec (lstrip l) (replace_first ''ps-t0'' ''ps-t1'' (lstrip l))"

fun is_RENAMED :: "change \<Rightarrow> bool" where
  "is_RENAMED (RENAMED sec a b) = True"
| "is_RENAMED (REMOVED sec a) = False"
| "is_RENAMED (ADDED sec a) = False"

text \<open>
  The routing of the tokenizer in the specification's words (transitions 1 to 5 and the
  flush at the end of the input): every line becomes a line passed through verbatim, or
  a member of one block, and the segments are listed in the order in which they reach
  the output. The arguments are the pending block, the section name, whether a section
  is open, and the exclusion flag.
\<close>

datatype segment = Verbatim string | Block "string list" "string option" bool

fun segment_lines :: "segment \<Rightarrow> string list" where
  "segment_lines (Verbatim l) = [l]"
| "segment_lines (Block b sec ex) = b"

fun emit :: "bool \<Rightarrow> segment \<Rightarrow> string list \<times> change list" where
  "emit rn (Verbatim l) = ([l], [])"
| "emit rn (Block b sec ex) = process_block_full rn b sec ex"

fun nonempty_segment :: "segment \<Rightarrow> bool" where
  "nonempty_segment (Verbatim l) = True"
| "nonempty_segment (Block b sec ex) = (b \<noteq> [])"

definition pending :: "string list \<Rightarrow> string option \<Rightarrow> bool \<Rightarrow> segment list" where
  "pending blk sec ex = (if blk = [] then [] else [Block blk sec ex])"

fun route ::
  "string set \<Rightarrow> string list \<Rightarrow> string option \<Rightarrow> bool \<Rightarrow> bool \<Rightarrow> string list \<Rightarrow>
   segment list" where
  "route excl blk sec ins ex [] = pending blk sec ex"
| "route excl blk sec ins ex (l # ls) =
     (if is_header (strip l)
      then pending blk sec ex
           @ Verbatim l # route excl [] (Some (strip l)) True (section_excluded (strip l) excl) ls
      else if SWAPVAR_PATTERN l \<noteq> None
      then pending blk sec ex @ route excl [l] sec ins ex ls
      else if ins \<and> endif_pattern l
      then Block (blk @ [l]) sec ex # route excl [] sec ins ex ls
      else if ins
      then route excl (blk @ [l]) sec ins ex ls
      else Verbatim l # route excl blk sec ins ex ls)"

section \<open>The blocks of the examples\<close>

definition example_block :: "string list" where
  "example_block =
     [''if $swapvar == 0\<newline>'',
      ''ps-t0 = ResourceExtraDiffuse\<newline>'',
      ''ps-t1 = ResourceNormalMap\<newline>'',
      ''endif\<newline>'']"

definition example_block_stray :: "string list" where
  "example_block_stray =
     [''if $swapvar == 0\<newline>'',
      ''ps-t0 = ResourceExtraDiffuse\<newline>'',
      run_NNFix,
      ''ps-t1 = ResourceNormalMap\<newline>'',
      ''endif\<newline>'']"

definition mixed_file :: "string list" where
  "mixed_file =
     [''; header comment\<newline>'', ''[CommandListFoo]\<newline>''] @ example_block"

definition stale_index_block :: "string list" where
  "stale_index_block =
     [run_ORFix, ''ps-t0 = ResourceDiffuse\<newline>'', ''; comment\<newline>'']"

definition indented_run_block :: "string list" where
  "indented_run_block =
     [''  ps-t0 = ResourceDiffuse\<newline>'', ''  run = '' @ ORFix_path @ ''NNFix\<newline>'']"

definition rename_block :: "string list" where
  "rename_block =
     [''  ps-t0 = ResourceExtraDiffuse\<newline>'',
      ''ps-t0 = ResourceDiffuse\<newline>'',
      ''ps-t2 = ResourceExtraDiffuse\<newline>'',
      ''ps-t0 = ps-t0ExtraDiffuse\<newline>'']"

definition lower_case_file :: "string list" where
  "lower_case_file =
     [''[CommandListFoo]\<newline>'',
      ''[textureoverrideCharacterIB]\<newline>'',
      ''ps-t0 = ResourceDiffuse\<newline>'']"

section \<open>Facts about the patterns\<close>

lemma rstrip_prefix: "\<exists>ws. t = rstrip t @ ws"
proof -
  have "rev t = takeWhile isspace (rev t) @ dropWhile isspace (rev t)" by simp
  then have "t = rev (dropWhile isspace (rev t)) @ rev (takeWhile isspace (rev t))"
    by (metis rev_append rev_rev_ident)
  then show ?thesis unfolding rstrip_def by blast
qed

lemma startswith_Cons: "startswith s (a # p) \<Longrightarrow> \<exists>cs. s = a # cs"
  by (cases s) (auto simp: startswith_def)

lemma is_header_first: "is_header (strip l) \<Longrightarrow> \<exists>cs. lstrip l = CHR ''['' # cs"
proof -
  assume h: "is_header (strip l)"
  then obtain cs where "strip l = CHR ''['' # cs"
    unfolding is_header_def by (auto dest: startswith_Cons)
  moreover obtain ws where "lstrip l = strip l @ ws"
    unfolding strip_def using rstrip_prefix by blast
  ultimately show ?thesis by simp
qed

lemma lit_ci_Cons: "lit_ci (a # p) s = Some r \<Longrightarrow> \<exists>c cs. s = c # cs \<and> ascii_lower c = ascii_lower a"
  by (cases s) (auto simp: lit_ci_def split: if_splits)

lemma lit_Cons: "lit (a # p) s = Some r \<Longrightarrow> \<exists>cs. s = a # cs"
  by (cases s) (auto simp: lit_def startswith_def split: if_splits)

lemma lower_bracket: "ascii_lower (CHR ''['') = CHR ''[''"
  by (simp add: ascii_lower_def)

lemma lit_ci_Cons2:
  "lit_ci (a # b # p) s = Some r \<Longrightarrow>
   \<exists>c d cs. s = c # d # cs \<and> ascii_lower c = ascii_lower a \<and> ascii_lower d = ascii_lower b"
proof -
  assume h: "lit_ci (a # b # p) s = Some r"
  then obtain c s' where s: "s = c # s'" and c: "ascii_lower c = ascii_lower a"
    using lit_ci_Cons by blast
  from h s obtain d cs where "s' = d # cs" "ascii_lower d = ascii_lower b"
    by (cases s') (auto simp: lit_ci_def split: if_splits)
  with s c show ?thesis by blast
qed

lemma lower_consts:
  "ascii_lower (CHR ''e'') = CHR ''e''" "ascii_lower (CHR ''n'') = CHR ''n''"
  "ascii_lower (CHR ''i'') = CHR ''i''" "ascii_lower (CHR ''f'') = CHR ''f''"
  "ascii_lower (CHR ''l'') = CHR ''l''" "ascii_lower (CHR ''r'') = CHR ''r''"
  "ascii_lower (CHR ''u'') = CHR ''u''" "ascii_lower (CHR ''p'') = CHR ''p''"
  "ascii_lower (CHR ''['') = CHR ''[''"
  by (simp_all add: ascii_lower_def)

lemma endif_first2:
  assumes "endif_pattern l"
  shows "\<exists>c d cs. lstrip l = c # d # cs \<and> ascii_lower c = CHR ''e'' \<and> ascii_lower d = CHR ''n''"
proof -
  from assms obtain r where "lit_ci ''endif'' (lstrip l) = Some r"
    by (auto simp: endif_pattern_def skip_ws_def lstrip_def)
  from lit_ci_Cons2 [OF this] show ?thesis by (simp add: lower_consts)
qed

lemma swapvar_first2:
  assumes "SWAPVAR_PATTERN l = Some g"
  shows "\<exists>c d cs. lstrip l = c # d # cs \<and>
           (ascii_lower c = CHR ''i'' \<and> ascii_lower d = CHR ''f''
            \<or> ascii_lower c = CHR ''e'' \<and> ascii_lower d = CHR ''l'')"
proof -
  from assms have "lit_ci ''if'' (lstrip l) \<noteq> None \<or> lit_ci ''else if'' (lstrip l) \<noteq> None"
    by (auto simp: SWAPVAR_PATTERN_def Let_def skip_ws_def lstrip_def split: option.splits)
  then show ?thesis
  proof
    assume "lit_ci ''if'' (lstrip l) \<noteq> None"
    then obtain r where "lit_ci ''if'' (lstrip l) = Some r" by blast
    from lit_ci_Cons2 [OF this] show ?thesis by (auto simp: lower_consts)
  next
    assume "lit_ci ''else if'' (lstrip l) \<noteq> None"
    then obtain r where "lit_ci ''else if'' (lstrip l) = Some r" by blast
    from lit_ci_Cons2 [OF this] show ?thesis by (auto simp: lower_consts)
  qed
qed

lemma run_first:
  assumes "RUN_LINE_PATTERN l"
  shows "\<exists>c cs. lstrip l = c # cs \<and> ascii_lower c = CHR ''r''"
proof -
  from assms obtain r where "lit_ci ''run'' (lstrip l) = Some r"
    by (auto simp: RUN_LINE_PATTERN_def skip_ws_def lstrip_def split: option.splits)
  from lit_ci_Cons [OF this] show ?thesis by (simp add: lower_consts)
qed

lemma ps_t_first:
  assumes "ps_t_digits (lstrip l)"
  shows "\<exists>cs. lstrip l = CHR ''p'' # cs"
proof -
  from assms obtain r where "lit ''ps-t'' (lstrip l) = Some r"
    by (auto simp: ps_t_digits_def split: option.splits)
  from lit_Cons [OF this] show ?thesis .
qed

lemma ps_t0_first:
  assumes "ps_t0_assign (lstrip l)"
  shows "\<exists>cs. lstrip l = CHR ''p'' # cs"
proof -
  from assms obtain r where "lit ''ps-t0'' (lstrip l) = Some r"
    by (auto simp: ps_t0_assign_def split: option.splits)
  from lit_Cons [OF this] show ?thesis .
qed

lemma endif_not_swapvar: "endif_pattern l \<Longrightarrow> SWAPVAR_PATTERN l = None"
proof (rule ccontr)
  assume e: "endif_pattern l" and "SWAPVAR_PATTERN l \<noteq> None"
  then obtain g where "SWAPVAR_PATTERN l = Some g" by blast
  from swapvar_first2 [OF this] endif_first2 [OF e] show False by auto
qed

lemma endif_not_header: "endif_pattern l \<Longrightarrow> \<not> is_header (strip l)"
proof
  assume e: "endif_pattern l" and h: "is_header (strip l)"
  from endif_first2 [OF e] is_header_first [OF h] show False
    by (auto simp: lower_consts)
qed

lemma swapvar_not_header: "SWAPVAR_PATTERN l = Some g \<Longrightarrow> \<not> is_header (strip l)"
proof
  assume e: "SWAPVAR_PATTERN l = Some g" and h: "is_header (strip l)"
  from swapvar_first2 [OF e] is_header_first [OF h] show False
    by (auto simp: lower_consts)
qed

lemma swapvar_not_run: "SWAPVAR_PATTERN l = Some g \<Longrightarrow> \<not> RUN_LINE_PATTERN l"
proof
  assume e: "SWAPVAR_PATTERN l = Some g" and h: "RUN_LINE_PATTERN l"
  from swapvar_first2 [OF e] run_first [OF h] show False by auto
qed

lemma swapvar_not_ps: "SWAPVAR_PATTERN l = Some g \<Longrightarrow> \<not> ps_t_digits (lstrip l)"
proof
  assume e: "SWAPVAR_PATTERN l = Some g" and h: "ps_t_digits (lstrip l)"
  from swapvar_first2 [OF e] ps_t_first [OF h] show False by (auto simp: lower_consts)
qed

lemma swapvar_not_ps0: "SWAPVAR_PATTERN l = Some g \<Longrightarrow> \<not> ps_t0_assign (lstrip l)"
proof
  assume e: "SWAPVAR_PATTERN l = Some g" and h: "ps_t0_assign (lstrip l)"
  from swapvar_first2 [OF e] ps_t0_first [OF h] show False by (auto simp: lower_consts)
qed

lemma run_not_ps0: "RUN_LINE_PATTERN l \<Longrightarrow> \<not> ps_t0_assign (lstrip l)"
proof
  assume e: "RUN_LINE_PATTERN l" and h: "ps_t0_assign (lstrip l)"
  from run_first [OF e] ps_t0_first [OF h] show False by (auto simp: lower_consts)
qed

section \<open>Facts about the tokenizer\<close>

lemma pbf_excluded: "process_block_full rn b sec True = (b, [])"
  by (simp add: process_block_full_def)

lemma pbf_empty: "process_block_full rn [] sec ex = ([], [])"
  by (simp add: process_block_full_def)

lemma flush_fields:
  "new_lines (flush rn st) =
     new_lines st @ fst (process_block_full rn (block_lines st) (current_section st) (inside_excluded st))"
  "all_changes (flush rn st) =
     all_changes st @ snd (process_block_full rn (block_lines st) (current_section st) (inside_excluded st))"
  "block_lines (flush rn st) = []"
  "current_section (flush rn st) = current_section st"
  "inside_section (flush rn st) = inside_section st"
  "inside_excluded (flush rn st) = inside_excluded st"
  by (simp_all add: flush_def split: prod.splits)

lemma flush_pending_fields:
  "new_lines (flush_pending rn st) =
     new_lines st @ fst (process_block_full rn (block_lines st) (current_section st) (inside_excluded st))"
  "all_changes (flush_pending rn st) =
     all_changes st @ snd (process_block_full rn (block_lines st) (current_section st) (inside_excluded st))"
  "block_lines (flush_pending rn st) = []"
  "current_section (flush_pending rn st) = current_section st"
  "inside_section (flush_pending rn st) = inside_section st"
  "inside_excluded (flush_pending rn st) = inside_excluded st"
  by (simp_all add: flush_pending_def flush_fields pbf_empty)

lemma step_header:
  assumes "is_header (strip l)"
  shows "step rn excl st l =
     (flush_pending rn st)\<lparr>current_section := Some (strip l), inside_section := True,
        inside_excluded := section_excluded (strip l) excl, current_swapvar := None,
        new_lines := new_lines (flush_pending rn st) @ [l]\<rparr>"
  using assms by (simp add: step_def Let_def)

lemma step_swapvar:
  assumes "SWAPVAR_PATTERN l = Some g"
  shows "step rn excl st l =
     (flush_pending rn st)\<lparr>current_swapvar := Some g, block_lines := [l]\<rparr>"
  using assms swapvar_not_header [OF assms]
  by (simp add: step_def Let_def flush_pending_fields)

lemma step_endif:
  assumes "\<not> is_header (strip l)" "SWAPVAR_PATTERN l = None" "inside_section st" "endif_pattern l"
  shows "step rn excl st l =
     (flush rn (st\<lparr>block_lines := block_lines st @ [l]\<rparr>))\<lparr>current_swapvar := None\<rparr>"
  using assms by (simp add: step_def Let_def)

lemma step_inside:
  assumes "\<not> is_header (strip l)" "SWAPVAR_PATTERN l = None" "inside_section st" "\<not> endif_pattern l"
  shows "step rn excl st l = st\<lparr>block_lines := block_lines st @ [l]\<rparr>"
  using assms by (simp add: step_def Let_def)

lemma step_outside:
  assumes "\<not> is_header (strip l)" "SWAPVAR_PATTERN l = None" "\<not> inside_section st"
  shows "step rn excl st l = st\<lparr>new_lines := new_lines st @ [l]\<rparr>"
  using assms by (simp add: step_def Let_def)

lemma step_cases:
  fixes l :: string and st :: tok_state
  obtains (header) "is_header (strip l)"
  | (swapvar) g where "\<not> is_header (strip l)" "SWAPVAR_PATTERN l = Some g"
  | (endif) "\<not> is_header (strip l)" "SWAPVAR_PATTERN l = None" "inside_section st" "endif_pattern l"
  | (inside) "\<not> is_header (strip l)" "SWAPVAR_PATTERN l = None" "inside_section st" "\<not> endif_pattern l"
  | (outside) "\<not> is_header (strip l)" "SWAPVAR_PATTERN l = None" "\<not> inside_section st"
  by (cases "SWAPVAR_PATTERN l") auto

lemma step_inside_section:
  "\<not> is_header (strip l) \<Longrightarrow> inside_section (step rn excl st l) = inside_section st"
  by (cases rule: step_cases [where l=l and st=st])
     (simp_all add: step_swapvar step_endif step_inside step_outside flush_fields flush_pending_fields)

lemma foldl_step_outside:
  "list_all (\<lambda>l. \<not> is_header (strip l)) ls \<Longrightarrow>
   inside_section (foldl (step rn excl) st ls) = inside_section st"
  by (induction ls arbitrary: st) (simp_all add: step_inside_section)

lemma step_new_lines_grow: "\<exists>ys. new_lines (step rn excl st l) = new_lines st @ ys"
  by (cases rule: step_cases [where l=l and st=st])
     (simp_all add: step_header step_swapvar step_endif step_inside step_outside flush_fields flush_pending_fields)

lemma foldl_step_new_lines_grow: "\<exists>ys. new_lines (foldl (step rn excl) st ls) = new_lines st @ ys"
proof (induction ls arbitrary: st)
  case Nil
  show ?case by simp
next
  case (Cons l ls)
  obtain ys where 1: "new_lines (step rn excl st l) = new_lines st @ ys"
    using step_new_lines_grow by blast
  obtain zs where "new_lines (foldl (step rn excl) (step rn excl st l) ls) = new_lines (step rn excl st l) @ zs"
    using Cons.IH by blast
  with 1 show ?case by simp
qed

lemma route_refines:
  "new_lines (flush_pending rn (foldl (step rn excl) st ls)) =
     new_lines st @ concat (map (fst \<circ> emit rn)
        (route excl (block_lines st) (current_section st) (inside_section st) (inside_excluded st) ls))
   \<and> all_changes (flush_pending rn (foldl (step rn excl) st ls)) =
     all_changes st @ concat (map (snd \<circ> emit rn)
        (route excl (block_lines st) (current_section st) (inside_section st) (inside_excluded st) ls))"
proof (induction ls arbitrary: st)
  case Nil
  show ?case by (simp add: flush_pending_fields pending_def pbf_empty)
next
  case (Cons l ls)
  show ?case
  proof (cases rule: step_cases [where l=l and st=st])
    case header
    then show ?thesis
      using Cons.IH [of "step rn excl st l"]
      by (simp add: step_header flush_pending_fields pending_def pbf_empty)
  next
    case (swapvar g)
    then show ?thesis
      using Cons.IH [of "step rn excl st l"]
      by (simp add: step_swapvar flush_pending_fields pending_def pbf_empty)
  next
    case endif
    then show ?thesis
      using Cons.IH [of "step rn excl st l"]
      by (simp add: step_endif flush_fields)
  next
    case inside
    then show ?thesis
      using Cons.IH [of "step rn excl st l"]
      by (simp add: step_inside)
  next
    case outside
    then show ?thesis
      using Cons.IH [of "step rn excl st l"]
      by (simp add: step_outside)
  qed
qed

lemma route_mset:
  "mset (concat (map segment_lines (route excl blk sec ins ex ls))) = mset blk + mset ls"
  by (induction ls arbitrary: blk sec ins ex) (simp_all add: pending_def)

lemma route_nonempty: "list_all nonempty_segment (route excl blk sec ins ex ls)"
  by (induction ls arbitrary: blk sec ins ex) (simp_all add: pending_def)

lemma step_excluded:
  assumes "inside_section st" "inside_excluded st" "\<not> is_header (strip l)"
  shows "inside_section (step rn excl st l) \<and> inside_excluded (step rn excl st l)
       \<and> new_lines (step rn excl st l) @ block_lines (step rn excl st l)
           = new_lines st @ block_lines st @ [l]
       \<and> all_changes (step rn excl st l) = all_changes st"
  using assms
  by (cases rule: step_cases [where l=l and st=st])
     (simp_all add: step_swapvar step_endif step_inside flush_fields flush_pending_fields
        pbf_excluded)

lemma foldl_step_excluded:
  assumes "inside_section st" "inside_excluded st" "list_all (\<lambda>l. \<not> is_header (strip l)) body"
  shows "inside_section (foldl (step rn excl) st body)
       \<and> inside_excluded (foldl (step rn excl) st body)
       \<and> new_lines (foldl (step rn excl) st body) @ block_lines (foldl (step rn excl) st body)
           = new_lines st @ block_lines st @ body
       \<and> all_changes (foldl (step rn excl) st body) = all_changes st"
  using assms
proof (induction body arbitrary: st)
  case Nil
  then show ?case by simp
next
  case (Cons l body)
  from Cons.prems have nh: "\<not> is_header (strip l)"
    and rest: "list_all (\<lambda>l. \<not> is_header (strip l)) body" by simp_all
  note s = step_excluded [OF Cons.prems(1) Cons.prems(2) nh, of rn excl]
  from s have a: "inside_section (step rn excl st l)" and b: "inside_excluded (step rn excl st l)"
    by simp_all
  from Cons.IH [OF a b rest] s show ?case by simp
qed

lemma pbf_swapvar_line:
  assumes "SWAPVAR_PATTERN l = Some g"
  shows "process_block_full rn [l] sec False = ([l], [])"
  using swapvar_not_run [OF assms] swapvar_not_ps [OF assms] swapvar_not_ps0 [OF assms]
  by (simp add: process_block_full_def Let_def rename_cond_def)

lemma step_outside_pending:
  assumes "list_all (\<lambda>l. \<not> is_header (strip l) \<and> SWAPVAR_PATTERN l = None) body"
    and "\<not> inside_section st"
  shows "foldl (step rn excl) st body = st\<lparr>new_lines := new_lines st @ body\<rparr>"
  using assms
proof (induction body arbitrary: st)
  case Nil
  then show ?case by simp
next
  case (Cons l body)
  from Cons.prems have 1: "\<not> is_header (strip l)" and 2: "SWAPVAR_PATTERN l = None"
    and 3: "list_all (\<lambda>l. \<not> is_header (strip l) \<and> SWAPVAR_PATTERN l = None) body" by simp_all
  have s: "step rn excl st l = st\<lparr>new_lines := new_lines st @ [l]\<rparr>"
    using step_outside [OF 1 2 Cons.prems(2)] .
  have "\<not> inside_section (st\<lparr>new_lines := new_lines st @ [l]\<rparr>)" using Cons.prems(2) by simp
  from Cons.IH [OF 3 this] s show ?case by simp
qed

lemma step_section_fields:
  "\<not> is_header (strip l) \<Longrightarrow>
   current_section (step rn excl st l) = current_section st
   \<and> inside_excluded (step rn excl st l) = inside_excluded st"
  by (cases rule: step_cases [where l=l and st=st])
     (simp_all add: step_swapvar step_endif step_inside step_outside flush_fields flush_pending_fields)

lemma foldl_step_section_fields:
  "list_all (\<lambda>l. \<not> is_header (strip l)) ls \<Longrightarrow>
   current_section (foldl (step rn excl) st ls) = current_section st
   \<and> inside_excluded (foldl (step rn excl) st ls) = inside_excluded st"
  by (induction ls arbitrary: st) (simp_all add: step_section_fields)

section \<open>Facts about the three loops of process_block_full\<close>

lemma not_space_consts: "\<not> isspace (CHR ''p'')" "\<not> isspace (CHR ''E'')" "\<not> isspace (CHR ''D'')"
  by (simp_all add: isspace_def)

lemma contains_skip:
  assumes "isspace c" "sub = a # sub'" "\<not> isspace a"
  shows "contains sub (c # cs) = contains sub cs"
  using assms by (auto simp: startswith_def)

lemma contains_lstrip:
  assumes "sub = a # sub'" "\<not> isspace a"
  shows "contains sub (lstrip l) = contains sub l"
  unfolding lstrip_def
  by (induction l) (simp_all add: contains_skip [OF _ assms] del: contains.simps)

lemma rename_cond_applies: "rename_cond rn (lstrip l) = rename_applies rn l"
  by (simp add: rename_cond_def rename_applies_def
      contains_lstrip [of "''Extra''" "CHR ''E''" "''xtra''"]
      contains_lstrip [of "''Diffuse''" "CHR ''D''" "''iffuse''"] not_space_consts)

lemma rename_loop_Cons:
  "rename_loop rn sec (l # block) (nb, ch, lp) =
     rename_loop rn sec block
       (nb @ [renamed_line rn l],
        ch @ (if rename_applies rn l then [renamed_record sec l] else []),
        if ps_t_digits (lstrip l) then AList.update (indent_of l) (length nb) lp else lp)"
  by (simp add: Let_def rename_cond_applies renamed_line_def renamed_record_def indent_of_def)

lemma rename_loop_result:
  "\<exists>lp'. rename_loop rn sec block (nb, ch, lp) =
     (nb @ map (renamed_line rn) block,
      ch @ map (renamed_record sec) (filter (rename_applies rn) block),
      lp')"
proof (induction block arbitrary: nb ch lp)
  case Nil
  show ?case by simp
next
  case (Cons l block)
  obtain lp' where
    "rename_loop rn sec block
       (nb @ [renamed_line rn l],
        ch @ (if rename_applies rn l then [renamed_record sec l] else []),
        if ps_t_digits (lstrip l) then AList.update (indent_of l) (length nb) lp else lp)
     = ((nb @ [renamed_line rn l]) @ map (renamed_line rn) block,
        (ch @ (if rename_applies rn l then [renamed_record sec l] else []))
          @ map (renamed_record sec) (filter (rename_applies rn) block),
        lp')"
    using Cons.IH by blast
  then have "rename_loop rn sec (l # block) (nb, ch, lp) =
     (nb @ map (renamed_line rn) (l # block),
      ch @ map (renamed_record sec) (filter (rename_applies rn) (l # block)),
      lp')"
    unfolding rename_loop_Cons by simp
  then show ?case by blast
qed

lemma run_consts: "RUN_LINE_PATTERN run_ORFix" "RUN_LINE_PATTERN run_NNFix"
  by code_simp+

lemma indent_consts: "indent_of run_ORFix = 0" "indent_of run_NNFix = 0"
  by code_simp+

lemma correct_run_of_run: "RUN_LINE_PATTERN (correct_run_of block)"
  by (simp add: correct_run_of_def run_consts)

lemma correct_run_of_indent: "indent_of (correct_run_of block) = 0"
  by (simp add: correct_run_of_def indent_consts)

lemma renamed_line_run: "RUN_LINE_PATTERN l \<Longrightarrow> renamed_line rn l = l"
  using run_not_ps0 [of l] by (auto simp: renamed_line_def rename_applies_def)

lemma remove_loop_result:
  "\<exists>kept rs. remove_loop sec cr lp i xs (tb, ch) = (tb @ kept, ch @ rs)
     \<and> filter (\<lambda>l. \<not> RUN_LINE_PATTERN l) kept = filter (\<lambda>l. \<not> RUN_LINE_PATTERN l) xs
     \<and> (\<forall>l\<in>set kept. RUN_LINE_PATTERN l \<longrightarrow> l = cr)
     \<and> (\<forall>c\<in>set rs. \<not> is_RENAMED c)
     \<and> (\<forall>l\<in>set xs. RUN_LINE_PATTERN l \<and> l \<noteq> cr \<longrightarrow> REMOVED sec (strip l) \<in> set rs)"
proof (induction xs arbitrary: i tb ch)
  case Nil
  show ?case by simp
next
  case (Cons line xs)
  let ?keep = "(case map_of lp (length line - length (lstrip line)) of
                  None \<Rightarrow> False | Some j \<Rightarrow> i = j + 1) \<and> line = cr"
  show ?case
  proof (cases "RUN_LINE_PATTERN line")
    case False
    obtain kept rs where r: "remove_loop sec cr lp (Suc i) xs (tb @ [line], ch) = ((tb @ [line]) @ kept, ch @ rs)"
      and p: "filter (\<lambda>l. \<not> RUN_LINE_PATTERN l) kept = filter (\<lambda>l. \<not> RUN_LINE_PATTERN l) xs"
        "\<forall>l\<in>set kept. RUN_LINE_PATTERN l \<longrightarrow> l = cr"
        "\<forall>c\<in>set rs. \<not> is_RENAMED c"
        "\<forall>l\<in>set xs. RUN_LINE_PATTERN l \<and> l \<noteq> cr \<longrightarrow> REMOVED sec (strip l) \<in> set rs"
      using Cons.IH [of "Suc i" "tb @ [line]" ch] by blast
    have "remove_loop sec cr lp i (line # xs) (tb, ch) = (tb @ (line # kept), ch @ rs)"
      using False r by simp
    moreover have "filter (\<lambda>l. \<not> RUN_LINE_PATTERN l) (line # kept)
        = filter (\<lambda>l. \<not> RUN_LINE_PATTERN l) (line # xs)" using False p(1) by simp
    moreover have "\<forall>l\<in>set (line # kept). RUN_LINE_PATTERN l \<longrightarrow> l = cr" using False p(2) by simp
    moreover have "\<forall>l\<in>set (line # xs). RUN_LINE_PATTERN l \<and> l \<noteq> cr \<longrightarrow> REMOVED sec (strip l) \<in> set rs"
      using False p(4) by simp
    ultimately show ?thesis using p(3) by blast
  next
    case True
    show ?thesis
    proof (cases ?keep)
      case k: True
      obtain kept rs where r: "remove_loop sec cr lp (Suc i) xs (tb @ [line], ch) = ((tb @ [line]) @ kept, ch @ rs)"
        and p: "filter (\<lambda>l. \<not> RUN_LINE_PATTERN l) kept = filter (\<lambda>l. \<not> RUN_LINE_PATTERN l) xs"
          "\<forall>l\<in>set kept. RUN_LINE_PATTERN l \<longrightarrow> l = cr"
          "\<forall>c\<in>set rs. \<not> is_RENAMED c"
          "\<forall>l\<in>set xs. RUN_LINE_PATTERN l \<and> l \<noteq> cr \<longrightarrow> REMOVED sec (strip l) \<in> set rs"
        using Cons.IH [of "Suc i" "tb @ [line]" ch] by blast
      have "remove_loop sec cr lp i (line # xs) (tb, ch)
          = remove_loop sec cr lp (Suc i) xs (tb @ [line], ch)"
      proof -
        from k have kb: "line = cr"
          and ka: "case map_of lp (length cr - length (lstrip cr)) of
                     None \<Rightarrow> False | Some j \<Rightarrow> i = j + 1"
          by auto
        from True ka kb show ?thesis by (simp add: Let_def)
      qed
      then have "remove_loop sec cr lp i (line # xs) (tb, ch) = (tb @ (line # kept), ch @ rs)"
        using r by simp
      moreover have "filter (\<lambda>l. \<not> RUN_LINE_PATTERN l) (line # kept)
          = filter (\<lambda>l. \<not> RUN_LINE_PATTERN l) (line # xs)" using True p(1) by simp
      moreover have "\<forall>l\<in>set (line # kept). RUN_LINE_PATTERN l \<longrightarrow> l = cr" using k p(2) by simp
      moreover have "\<forall>l\<in>set (line # xs). RUN_LINE_PATTERN l \<and> l \<noteq> cr \<longrightarrow> REMOVED sec (strip l) \<in> set rs"
        using k p(4) by simp
      ultimately show ?thesis using p(3) by blast
    next
      case k: False
      obtain kept rs where r: "remove_loop sec cr lp (Suc i) xs (tb, ch @ [REMOVED sec (strip line)])
            = (tb @ kept, (ch @ [REMOVED sec (strip line)]) @ rs)"
        and p: "filter (\<lambda>l. \<not> RUN_LINE_PATTERN l) kept = filter (\<lambda>l. \<not> RUN_LINE_PATTERN l) xs"
          "\<forall>l\<in>set kept. RUN_LINE_PATTERN l \<longrightarrow> l = cr"
          "\<forall>c\<in>set rs. \<not> is_RENAMED c"
          "\<forall>l\<in>set xs. RUN_LINE_PATTERN l \<and> l \<noteq> cr \<longrightarrow> REMOVED sec (strip l) \<in> set rs"
        using Cons.IH [of "Suc i" tb "ch @ [REMOVED sec (strip line)]"] by blast
      have "remove_loop sec cr lp i (line # xs) (tb, ch)
          = remove_loop sec cr lp (Suc i) xs (tb, ch @ [REMOVED sec (strip line)])"
        using True k by (simp only: remove_loop.simps Let_def if_True if_False)
      then have "remove_loop sec cr lp i (line # xs) (tb, ch) = (tb @ kept, ch @ (REMOVED sec (strip line) # rs))"
        using r by simp
      moreover have "filter (\<lambda>l. \<not> RUN_LINE_PATTERN l) kept
          = filter (\<lambda>l. \<not> RUN_LINE_PATTERN l) (line # xs)" using True p(1) by simp
      moreover have "\<forall>c\<in>set (REMOVED sec (strip line) # rs). \<not> is_RENAMED c" using p(3) by simp
      moreover have "\<forall>l\<in>set (line # xs). RUN_LINE_PATTERN l \<and> l \<noteq> cr
          \<longrightarrow> REMOVED sec (strip l) \<in> set (REMOVED sec (strip line) # rs)"
        using p(4) by simp
      ultimately show ?thesis using p(2) by blast
    qed
  qed
qed

lemma filter_list_insert:
  "\<not> P x \<Longrightarrow> filter P (list_insert i x xs) = filter P xs"
proof -
  assume "\<not> P x"
  then have "filter P (list_insert i x xs) = filter P (take i xs) @ filter P (drop i xs)"
    by (simp add: list_insert_def)
  also have "\<dots> = filter P (take i xs @ drop i xs)"
    by (simp only: filter_append)
  also have "\<dots> = filter P xs"
    by (simp only: append_take_drop_id)
  finally show ?thesis .
qed

lemma insert_loop_result:
  "\<exists>out n lp'. insert_loop sec cr items (nb, ch, lp)
       = (out, ch @ replicate n (ADDED sec (strip cr)), lp')
     \<and> filter (\<lambda>l. l \<noteq> cr) out = filter (\<lambda>l. l \<noteq> cr) nb"
proof (induction items arbitrary: nb ch lp)
  case Nil
  have "insert_loop sec cr [] (nb, ch, lp) = (nb, ch @ replicate 0 (ADDED sec (strip cr)), lp)"
    by simp
  then show ?case by blast
next
  case (Cons item items)
  obtain indent last_index where item: "item = (indent, last_index)" by (cases item)
  show ?case
  proof (cases "Suc last_index < length nb \<and> nb ! Suc last_index = cr")
    case True
    then have "insert_loop sec cr (item # items) (nb, ch, lp) = insert_loop sec cr items (nb, ch, lp)"
      by (simp add: item)
    then show ?thesis using Cons.IH [of nb ch lp] by simp
  next
    case False
    let ?nb = "list_insert (Suc last_index) cr nb"
    let ?lp = "map (\<lambda>(k, v). (k, if v \<ge> Suc last_index then v + 1 else v)) lp"
    have e: "insert_loop sec cr (item # items) (nb, ch, lp)
        = insert_loop sec cr items (?nb, ch @ [ADDED sec (strip cr)], ?lp)"
      using False by (simp add: item)
    obtain out n lp' where r: "insert_loop sec cr items (?nb, ch @ [ADDED sec (strip cr)], ?lp)
        = (out, (ch @ [ADDED sec (strip cr)]) @ replicate n (ADDED sec (strip cr)), lp')"
      and f: "filter (\<lambda>l. l \<noteq> cr) out = filter (\<lambda>l. l \<noteq> cr) ?nb"
      using Cons.IH [of ?nb "ch @ [ADDED sec (strip cr)]" ?lp] by blast
    have "insert_loop sec cr (item # items) (nb, ch, lp)
        = (out, ch @ replicate (Suc n) (ADDED sec (strip cr)), lp')"
      using e r by simp
    moreover have "filter (\<lambda>l. l \<noteq> cr) out = filter (\<lambda>l. l \<noteq> cr) nb"
      using f by (simp add: filter_list_insert)
    ultimately show ?thesis by blast
  qed
qed

lemma pbf_result:
  "\<exists>out rs n. process_block_full rn block sec False
       = (out, map (renamed_record sec) (filter (rename_applies rn) block) @ rs
               @ replicate n (ADDED sec (strip (correct_run_of block))))
     \<and> filter (\<lambda>l. l \<noteq> correct_run_of block) out
         = filter (\<lambda>l. \<not> RUN_LINE_PATTERN l) (map (renamed_line rn) block)
     \<and> (\<forall>c\<in>set rs. \<not> is_RENAMED c)
     \<and> (\<forall>l\<in>set block. RUN_LINE_PATTERN l \<and> l \<noteq> correct_run_of block
            \<longrightarrow> REMOVED sec (strip l) \<in> set rs)"
proof (cases "block = []")
  case True
  have "process_block_full rn block sec False
       = ([], map (renamed_record sec) (filter (rename_applies rn) block) @ []
               @ replicate 0 (ADDED sec (strip (correct_run_of block))))"
    using True by (simp add: process_block_full_def)
  then show ?thesis using True by fastforce
next
  case False
  let ?cr = "correct_run_of block"
  let ?nb = "map (renamed_line rn) block"
  let ?ch = "map (renamed_record sec) (filter (rename_applies rn) block)"
  obtain lp where 1: "rename_loop rn sec block ([], [], []) = (?nb, ?ch, lp)"
    using rename_loop_result [of rn sec block "[]" "[]" "[]"] by auto
  obtain kept rs where 2: "remove_loop sec ?cr lp 0 ?nb ([], ?ch) = (kept, ?ch @ rs)"
    and k1: "filter (\<lambda>l. \<not> RUN_LINE_PATTERN l) kept = filter (\<lambda>l. \<not> RUN_LINE_PATTERN l) ?nb"
    and k2: "\<forall>l\<in>set kept. RUN_LINE_PATTERN l \<longrightarrow> l = ?cr"
    and k3: "\<forall>c\<in>set rs. \<not> is_RENAMED c"
    and k4: "\<forall>l\<in>set ?nb. RUN_LINE_PATTERN l \<and> l \<noteq> ?cr \<longrightarrow> REMOVED sec (strip l) \<in> set rs"
    using remove_loop_result [of sec ?cr lp 0 ?nb "[]" ?ch] by auto
  obtain out n lp' where 3: "insert_loop sec ?cr (sort_key fst lp) (kept, ?ch @ rs, lp)
       = (out, (?ch @ rs) @ replicate n (ADDED sec (strip ?cr)), lp')"
    and o: "filter (\<lambda>l. l \<noteq> ?cr) out = filter (\<lambda>l. l \<noteq> ?cr) kept"
    using insert_loop_result [of sec ?cr "sort_key fst lp" kept "?ch @ rs" lp] by blast
  have res: "process_block_full rn block sec False
       = (out, ?ch @ rs @ replicate n (ADDED sec (strip ?cr)))"
    using False by (simp add: process_block_full_def Let_def 1 2 3)
  have "filter (\<lambda>l. l \<noteq> ?cr) kept = filter (\<lambda>l. \<not> RUN_LINE_PATTERN l) kept"
    using k2 correct_run_of_run [of block] by (intro filter_cong) auto
  with o k1 have f: "filter (\<lambda>l. l \<noteq> ?cr) out = filter (\<lambda>l. \<not> RUN_LINE_PATTERN l) ?nb" by simp
  have "\<forall>l\<in>set block. RUN_LINE_PATTERN l \<and> l \<noteq> ?cr \<longrightarrow> REMOVED sec (strip l) \<in> set rs"
  proof (intro ballI impI)
    fix l assume l: "l \<in> set block" and r: "RUN_LINE_PATTERN l \<and> l \<noteq> ?cr"
    then have "renamed_line rn l = l" by (simp add: renamed_line_run)
    with l have "l \<in> set ?nb" by force
    with k4 r show "REMOVED sec (strip l) \<in> set rs" by blast
  qed
  with res f k3 show ?thesis by blast
qed

lemma replace_first_lstrip:
  "ps_t0_assign (lstrip l) \<Longrightarrow>
   replace_first ''ps-t0'' ''ps-t1'' l = takeWhile isspace l @ ''ps-t1'' @ drop 5 (lstrip l)"
proof (induction l)
  case Nil
  then show ?case by (simp add: lstrip_def ps_t0_assign_def lit_def startswith_def)
next
  case (Cons c cs)
  show ?case
  proof (cases "isspace c")
    case True
    then have "c \<noteq> CHR ''p''" using not_space_consts(1) by auto
    then have ns: "\<not> startswith (c # cs) ''ps-t0''" by (simp add: startswith_def)
    from True Cons.prems have "ps_t0_assign (lstrip cs)" by (simp add: lstrip_def)
    from Cons.IH [OF this] True ns show ?thesis by (simp add: lstrip_def)
  next
    case False
    with Cons.prems have "ps_t0_assign (c # cs)" by (simp add: lstrip_def)
    then have "startswith (c # cs) ''ps-t0''"
      by (auto simp: ps_t0_assign_def lit_def split: option.splits if_splits)
    with False show ?thesis by (simp add: lstrip_def eval_nat_numeral)
  qed
qed

section \<open>The tokenizer\<close>

text \<open>
  C3, as amended. A section header is a line whose stripped text starts with
  \<open>[CommandList\<close> or \<open>[TextureOverride\<close> in exactly this case; that is what the
  tokenizer recognises. When such a header matches one of the automatic exclusion
  patterns (the rest of the name in any case), the section is excluded whatever the manual
  exclusion set \<open>excl\<close> and the rename option \<open>rn\<close> are: from any state \<open>st\<close> of the
  tokenizer, the header \<open>h\<close> and the lines \<open>body\<close> of the section (all lines up to the
  next header or the end of the input) reach the output byte for byte, and no change is
  recorded for them. \<open>flush_pending\<close> is what the next header and the end of the input do
  first; on both sides it also emits what was pending before \<open>h\<close>.
\<close>

theorem auto_excluded_section_unchanged:
  assumes "is_header (strip h)"
    and "list_ex (\<lambda>pat. pat (strip h)) AUTO_EXCLUDE_PATTERNS"
    and "list_all (\<lambda>l. \<not> is_header (strip l)) body"
  shows "inside_excluded (step rn excl st h)
       \<and> new_lines (flush_pending rn (foldl (step rn excl) st (h # body)))
           = new_lines (flush_pending rn st) @ h # body
       \<and> all_changes (flush_pending rn (foldl (step rn excl) st (h # body)))
           = all_changes (flush_pending rn st)"
proof -
  let ?s1 = "step rn excl st h"
  have ex: "inside_excluded ?s1"
    using assms(1,2) by (simp add: step_header section_excluded_def)
  have ins: "inside_section ?s1" using assms(1) by (simp add: step_header)
  have nl: "new_lines ?s1 = new_lines (flush_pending rn st) @ [h]"
    and bl: "block_lines ?s1 = []"
    and ch: "all_changes ?s1 = all_changes (flush_pending rn st)"
    using assms(1) by (simp_all add: step_header flush_pending_fields)
  let ?s2 = "foldl (step rn excl) ?s1 body"
  from foldl_step_excluded [OF ins ex assms(3), of rn excl]
  have e2: "inside_excluded ?s2"
    and l2: "new_lines ?s2 @ block_lines ?s2 = new_lines ?s1 @ block_lines ?s1 @ body"
    and c2: "all_changes ?s2 = all_changes ?s1" by simp_all
  have "new_lines (flush_pending rn ?s2) = new_lines ?s2 @ block_lines ?s2"
    using e2 by (simp add: flush_pending_fields pbf_excluded)
  moreover have "all_changes (flush_pending rn ?s2) = all_changes ?s2"
    using e2 by (simp add: flush_pending_fields pbf_excluded)
  ultimately show ?thesis using ex l2 c2 nl bl ch by simp
qed

theorem auto_excluded_section_unchanged_witness:
  "is_header (strip ''[TextureOverrideCharacterIB]\<newline>'')
   \<and> list_ex (\<lambda>pat. pat (strip ''[TextureOverrideCharacterIB]\<newline>'')) AUTO_EXCLUDE_PATTERNS
   \<and> list_all (\<lambda>l. \<not> is_header (strip l)) example_block_stray
   \<and> new_lines (flush_pending True
        (foldl (step True {}) init_state (''[TextureOverrideCharacterIB]\<newline>'' # example_block_stray)))
       = ''[TextureOverrideCharacterIB]\<newline>'' # example_block_stray
   \<and> all_changes (flush_pending True
        (foldl (step True {}) init_state (''[TextureOverrideCharacterIB]\<newline>'' # example_block_stray)))
       = []"
proof -
  have 1: "is_header (strip ''[TextureOverrideCharacterIB]\<newline>'')" by code_simp
  have 2: "list_ex (\<lambda>pat. pat (strip ''[TextureOverrideCharacterIB]\<newline>'')) AUTO_EXCLUDE_PATTERNS"
    by code_simp
  have 3: "list_all (\<lambda>l. \<not> is_header (strip l)) example_block_stray" by code_simp
  have 4: "new_lines (flush_pending True init_state) = []"
       "all_changes (flush_pending True init_state) = []"
    by (simp_all add: flush_pending_def init_state_def)
  from auto_excluded_section_unchanged [OF 1 2 3, of True "{}" init_state] 1 2 3 4
  show ?thesis by simp
qed

text \<open>
  C3, as stated, fails for a header whose prefix is not in that case. The line
  \<open>[textureoverrideCharacterIB]\<close> matches an automatic exclusion pattern, since the
  patterns ignore case in the prefix too, but the tokenizer does not take it for a header:
  it and the lines below it stay in the block of the section before, which is transformed,
  here with a run line added after the \<open>ps-t0\<close> line.
\<close>

theorem lower_case_header_not_excluded:
  "list_ex (\<lambda>pat. pat (strip ''[textureoverrideCharacterIB]\<newline>'')) AUTO_EXCLUDE_PATTERNS
   \<and> process_ini_preview False lower_case_file {}
       = ([ADDED (Some ''[CommandListFoo]'') (''run = '' @ ORFix_path @ ''NNFix'')],
          [''[CommandListFoo]\<newline>'',
           ''[textureoverrideCharacterIB]\<newline>'',
           ''ps-t0 = ResourceDiffuse\<newline>'',
           run_NNFix])"
  by code_simp

text \<open>
  C7. Every input line is routed exactly once. The output and the changes of
  \<open>process_ini_preview\<close> are those of the segments of \<open>route\<close>, each emitted once and in
  order: a verbatim line as it is, a block through one call of \<open>process_block_full\<close>.
  The lines of the segments are the input lines with their multiplicities, so no line is
  in two blocks and none is dropped by the tokenizer; no segment is an empty block, and
  the block pending at the end of the input is a segment.
\<close>

theorem tokenizer_routes_each_line_once:
  "process_ini_preview rn lines excl =
     (concat (map (snd \<circ> emit rn) (route excl [] None False False lines)),
      concat (map (fst \<circ> emit rn) (route excl [] None False False lines)))
   \<and> mset (concat (map segment_lines (route excl [] None False False lines))) = mset lines
   \<and> list_all nonempty_segment (route excl [] None False False lines)"
  using route_refines [of rn excl init_state lines]
  by (simp add: process_ini_preview_def Let_def route_mset route_nonempty init_state_def)

theorem tokenizer_routes_each_line_once_witness:
  "route {} [] None False False mixed_file =
     [Verbatim ''; header comment\<newline>'', Verbatim ''[CommandListFoo]\<newline>'',
      Block example_block (Some ''[CommandListFoo]'') False]
   \<and> process_ini_preview True mixed_file {} =
     (snd (process_block_full True example_block (Some ''[CommandListFoo]'') False),
      [''; header comment\<newline>'', ''[CommandListFoo]\<newline>'']
        @ fst (process_block_full True example_block (Some ''[CommandListFoo]'') False))
   \<and> mset (concat (map segment_lines (route {} [] None False False mixed_file))) = mset mixed_file"
proof -
  have r: "route {} [] None False False mixed_file =
     [Verbatim ''; header comment\<newline>'', Verbatim ''[CommandListFoo]\<newline>'',
      Block example_block (Some ''[CommandListFoo]'') False]"
    by code_simp
  from tokenizer_routes_each_line_once [of True mixed_file "{}"] show ?thesis
    by (simp add: r)
qed

text \<open>
  C8. An \<open>endif\<close> line met while no section is open (no header among the lines \<open>pre\<close>
  before it) is appended to the output as it is: the step changes nothing else in the
  state, so the line is in no block and is not transformed, and in the result of the whole
  run it follows directly what had been written before it. The model is total, as the
  source raises nowhere on this path.
\<close>

theorem endif_outside_section_passes_through:
  assumes "list_all (\<lambda>l. \<not> is_header (strip l)) pre"
    and "endif_pattern line"
  shows "foldl (step rn excl) init_state (pre @ [line])
           = (foldl (step rn excl) init_state pre)
               \<lparr>new_lines := new_lines (foldl (step rn excl) init_state pre) @ [line]\<rparr>
       \<and> (\<exists>rest. snd (process_ini_preview rn (pre @ line # post) excl)
              = new_lines (foldl (step rn excl) init_state pre) @ line # rest)"
proof -
  let ?s = "foldl (step rn excl) init_state pre"
  have out: "\<not> inside_section ?s"
    using foldl_step_outside [OF assms(1), of rn excl init_state] by (simp add: init_state_def)
  have s: "step rn excl ?s line = ?s\<lparr>new_lines := new_lines ?s @ [line]\<rparr>"
    using step_outside [OF endif_not_header [OF assms(2)] endif_not_swapvar [OF assms(2)] out] .
  have a: "foldl (step rn excl) init_state (pre @ [line]) = ?s\<lparr>new_lines := new_lines ?s @ [line]\<rparr>"
    using s by simp
  let ?t = "foldl (step rn excl) (step rn excl ?s line) post"
  obtain ys where ys: "new_lines ?t = new_lines (step rn excl ?s line) @ ys"
    using foldl_step_new_lines_grow by blast
  have "new_lines (flush_pending rn ?t) =
          new_lines ?t @ fst (process_block_full rn (block_lines ?t) (current_section ?t) (inside_excluded ?t))"
    by (simp add: flush_pending_fields)
  with ys s have "\<exists>rest. new_lines (flush_pending rn ?t) = new_lines ?s @ line # rest" by simp
  then have "\<exists>rest. snd (process_ini_preview rn (pre @ line # post) excl) = new_lines ?s @ line # rest"
    by (simp add: process_ini_preview_def Let_def)
  with a show ?thesis by simp
qed

theorem endif_outside_section_passes_through_witness:
  "list_all (\<lambda>l. \<not> is_header (strip l)) [''; stray\<newline>'']
   \<and> endif_pattern ''  EndIf\<newline>''
   \<and> foldl (step True {}) init_state ([''; stray\<newline>''] @ [''  EndIf\<newline>''])
       = init_state\<lparr>new_lines := [''; stray\<newline>'', ''  EndIf\<newline>'']\<rparr>
   \<and> (\<exists>rest. snd (process_ini_preview True ([''; stray\<newline>''] @ ''  EndIf\<newline>'' # [''[CommandListFoo]\<newline>'']) {})
        = [''; stray\<newline>'', ''  EndIf\<newline>''] @ rest)"
proof -
  have 1: "list_all (\<lambda>l. \<not> is_header (strip l)) [''; stray\<newline>'']" by code_simp
  have 2: "endif_pattern ''  EndIf\<newline>''" by code_simp
  have 3: "step True {} init_state ''; stray\<newline>'' = init_state\<lparr>new_lines := [''; stray\<newline>'']\<rparr>"
    by code_simp
  from endif_outside_section_passes_through [OF 1 2, of True "{}" "[''[CommandListFoo]\<newline>'']"] 1 2
  show ?thesis by (simp add: 3)
qed

text \<open>
  C10. A swap-conditional open line \<open>opn\<close> met before the first header, after any lines
  \<open>pre\<close> without a header, is not passed through: the step flushes what was pending and
  starts a pending block with \<open>opn\<close>, with no section name and not excluded. The lines
  \<open>body\<close> after it that are neither headers nor swap-conditional opens, an \<open>endif\<close> among
  them, go to the output at once, and the pending block is flushed after them: the output
  is that of \<open>pre\<close>, then \<open>body\<close>, then \<open>opn\<close>, with no change recorded beyond those of
  \<open>pre\<close>. When \<open>pre\<close> has no open line either, the output is \<open>pre @ body @ [opn]\<close>, so
  the order of the lines differs from the input whenever \<open>body\<close> is not empty.
\<close>

theorem swap_open_before_first_header:
  assumes "list_all (\<lambda>l. \<not> is_header (strip l)) pre"
    and "SWAPVAR_PATTERN opn = Some g"
    and "list_all (\<lambda>l. \<not> is_header (strip l) \<and> SWAPVAR_PATTERN l = None) body"
  shows "step rn excl (foldl (step rn excl) init_state pre) opn
           = (flush_pending rn (foldl (step rn excl) init_state pre))
               \<lparr>current_swapvar := Some g, block_lines := [opn]\<rparr>
       \<and> current_section (step rn excl (foldl (step rn excl) init_state pre) opn) = None
       \<and> \<not> inside_excluded (step rn excl (foldl (step rn excl) init_state pre) opn)
       \<and> foldl (step rn excl) init_state (pre @ opn # body)
           = (flush_pending rn (foldl (step rn excl) init_state pre))
               \<lparr>current_swapvar := Some g, block_lines := [opn],
                new_lines := new_lines (flush_pending rn (foldl (step rn excl) init_state pre)) @ body\<rparr>
       \<and> process_ini_preview rn (pre @ opn # body) excl
           = (fst (process_ini_preview rn pre excl),
              snd (process_ini_preview rn pre excl) @ body @ [opn])
       \<and> (list_all (\<lambda>l. SWAPVAR_PATTERN l = None) pre \<longrightarrow>
            process_ini_preview rn (pre @ opn # body) excl = ([], pre @ body @ [opn]))"
proof -
  let ?st = "foldl (step rn excl) init_state pre"
  let ?f = "flush_pending rn ?st"
  let ?s1 = "?f\<lparr>current_swapvar := Some g, block_lines := [opn]\<rparr>"
  have out: "\<not> inside_section ?st"
    using foldl_step_outside [OF assms(1), of rn excl init_state] by (simp add: init_state_def)
  have sec: "current_section ?st = None" and exc: "\<not> inside_excluded ?st"
    using foldl_step_section_fields [OF assms(1), of rn excl init_state]
    by (simp_all add: init_state_def)
  have a: "step rn excl ?st opn = ?s1" by (rule step_swapvar [OF assms(2)])
  have b: "current_section ?s1 = None" "\<not> inside_excluded ?s1" "\<not> inside_section ?s1"
    using sec exc out by (simp_all add: flush_pending_fields)
  have c0: "foldl (step rn excl) ?s1 body = ?s1\<lparr>new_lines := new_lines ?s1 @ body\<rparr>"
    using step_outside_pending [OF assms(3) b(3)] .
  have c: "foldl (step rn excl) init_state (pre @ opn # body)
      = ?f\<lparr>current_swapvar := Some g, block_lines := [opn], new_lines := new_lines ?f @ body\<rparr>"
    using a c0 by simp
  have p: "process_ini_preview rn pre excl = (all_changes ?f, new_lines ?f)"
    by (simp add: process_ini_preview_def Let_def)
  have d: "process_ini_preview rn (pre @ opn # body) excl
      = (fst (process_ini_preview rn pre excl), snd (process_ini_preview rn pre excl) @ body @ [opn])"
    unfolding p process_ini_preview_def c
    using sec exc
    by (simp add: Let_def flush_pending_fields pbf_swapvar_line [OF assms(2)])
  have e: "list_all (\<lambda>l. SWAPVAR_PATTERN l = None) pre \<longrightarrow>
            process_ini_preview rn (pre @ opn # body) excl = ([], pre @ body @ [opn])"
  proof
    assume ns: "list_all (\<lambda>l. SWAPVAR_PATTERN l = None) pre"
    with assms(1) have "list_all (\<lambda>l. \<not> is_header (strip l) \<and> SWAPVAR_PATTERN l = None) pre"
      by (simp add: list_all_iff)
    from step_outside_pending [OF this, of init_state rn excl]
    have "?st = init_state\<lparr>new_lines := pre\<rparr>" by (simp add: init_state_def)
    then have "process_ini_preview rn pre excl = ([], pre)"
      unfolding p by (simp add: flush_pending_def init_state_def)
    with d show "process_ini_preview rn (pre @ opn # body) excl = ([], pre @ body @ [opn])"
      by simp
  qed
  from a b c d e show ?thesis by simp
qed

theorem swap_open_before_first_header_witness:
  "list_all (\<lambda>l. \<not> is_header (strip l)) [''; comment\<newline>'']
   \<and> SWAPVAR_PATTERN ''if $swapvar == 0\<newline>'' = Some ''0''
   \<and> list_all (\<lambda>l. \<not> is_header (strip l) \<and> SWAPVAR_PATTERN l = None)
        [''ps-t0 = ResourceDiffuse\<newline>'', ''endif\<newline>'']
   \<and> list_all (\<lambda>l. SWAPVAR_PATTERN l = None) [''; comment\<newline>'']
   \<and> process_ini_preview True
        [''; comment\<newline>'', ''if $swapvar == 0\<newline>'',
         ''ps-t0 = ResourceDiffuse\<newline>'', ''endif\<newline>''] {}
       = ([], [''; comment\<newline>'', ''ps-t0 = ResourceDiffuse\<newline>'', ''endif\<newline>'',
               ''if $swapvar == 0\<newline>''])"
proof -
  have 1: "list_all (\<lambda>l. \<not> is_header (strip l)) [''; comment\<newline>'']" by code_simp
  have 2: "SWAPVAR_PATTERN ''if $swapvar == 0\<newline>'' = Some ''0''" by code_simp
  have 3: "list_all (\<lambda>l. \<not> is_header (strip l) \<and> SWAPVAR_PATTERN l = None)
        [''ps-t0 = ResourceDiffuse\<newline>'', ''endif\<newline>'']" by code_simp
  have 4: "list_all (\<lambda>l. SWAPVAR_PATTERN l = None) [''; comment\<newline>'']" by code_simp
  from swap_open_before_first_header [OF 1 2 3, of True "{}"] 4
  have "process_ini_preview True
        ([''; comment\<newline>''] @ ''if $swapvar == 0\<newline>''
           # [''ps-t0 = ResourceDiffuse\<newline>'', ''endif\<newline>'']) {}
       = ([], [''; comment\<newline>''] @ [''ps-t0 = ResourceDiffuse\<newline>'', ''endif\<newline>'']
               @ [''if $swapvar == 0\<newline>''])"
    by blast
  with 1 2 3 4 show ?thesis by simp
qed

section \<open>The block transformer\<close>

text \<open>
  C5. The rename pass maps every line through \<open>renamed_line\<close>: the lines whose text
  after the leading whitespace matches \<open>ps-t0\s*=\<close> and which contain \<open>Extra\<close> and
  \<open>Diffuse\<close> get their first \<open>ps-t0\<close>, the one right after the leading whitespace,
  rewritten to \<open>ps-t1\<close>, and only when the option is enabled; every other line keeps its
  text. This survives the two later passes: apart from run lines, the lines of the result
  of \<open>process_block_full\<close> on a block that is not excluded are the renamed lines of the
  block, in order, and its RENAMED records are those of the renamed lines, in order.
\<close>

theorem rename_scope:
  "fst (rename_loop rn sec block ([], [], [])) = map (renamed_line rn) block
   \<and> filter (\<lambda>l. \<not> RUN_LINE_PATTERN l) (fst (process_block_full rn block sec False))
       = filter (\<lambda>l. \<not> RUN_LINE_PATTERN l) (map (renamed_line rn) block)
   \<and> filter is_RENAMED (snd (process_block_full rn block sec False))
       = map (renamed_record sec) (filter (rename_applies rn) block)
   \<and> (rename_applies rn l \<longrightarrow>
        renamed_line rn l = takeWhile isspace l @ ''ps-t1'' @ drop 5 (lstrip l))"
proof -
  let ?cr = "correct_run_of block"
  let ?R = "map (renamed_record sec) (filter (rename_applies rn) block)"
  have a: "fst (rename_loop rn sec block ([], [], [])) = map (renamed_line rn) block"
    using rename_loop_result [of rn sec block "[]" "[]" "[]"] by auto
  obtain out rs n where res: "process_block_full rn block sec False
       = (out, ?R @ rs @ replicate n (ADDED sec (strip ?cr)))"
    and f: "filter (\<lambda>l. l \<noteq> ?cr) out
         = filter (\<lambda>l. \<not> RUN_LINE_PATTERN l) (map (renamed_line rn) block)"
    and nr: "\<forall>c\<in>set rs. \<not> is_RENAMED c"
    using pbf_result [of rn block sec] by blast
  have "filter (\<lambda>l. \<not> RUN_LINE_PATTERN l) out
      = filter (\<lambda>l. \<not> RUN_LINE_PATTERN l) (filter (\<lambda>l. l \<noteq> ?cr) out)"
    using correct_run_of_run [of block] by (auto intro: filter_cong)
  also have "\<dots> = filter (\<lambda>l. \<not> RUN_LINE_PATTERN l) (map (renamed_line rn) block)"
    unfolding f by simp
  finally have b: "filter (\<lambda>l. \<not> RUN_LINE_PATTERN l) (fst (process_block_full rn block sec False))
       = filter (\<lambda>l. \<not> RUN_LINE_PATTERN l) (map (renamed_line rn) block)"
    by (simp add: res)
  have r1: "filter is_RENAMED ?R = ?R"
    by (simp add: renamed_record_def filter_map comp_def)
  have r2: "filter is_RENAMED rs = []" using nr by (simp add: filter_empty_conv)
  have r3: "filter is_RENAMED (replicate n (ADDED sec (strip ?cr))) = []" by simp
  have c: "filter is_RENAMED (snd (process_block_full rn block sec False)) = ?R"
    by (simp add: res r1 r2 r3)
  have d: "rename_applies rn l \<longrightarrow>
        renamed_line rn l = takeWhile isspace l @ ''ps-t1'' @ drop 5 (lstrip l)"
    by (simp add: renamed_line_def rename_applies_def replace_first_lstrip)
  from a b c d show ?thesis by blast
qed

theorem rename_scope_witness:
  "rename_applies True ''  ps-t0 = ResourceExtraDiffuse\<newline>''
   \<and> renamed_line True ''  ps-t0 = ResourceExtraDiffuse\<newline>''
       = ''  ps-t1 = ResourceExtraDiffuse\<newline>''
   \<and> filter (\<lambda>l. \<not> RUN_LINE_PATTERN l) (fst (process_block_full True rename_block None False))
       = [''  ps-t1 = ResourceExtraDiffuse\<newline>'',
          ''ps-t0 = ResourceDiffuse\<newline>'',
          ''ps-t2 = ResourceExtraDiffuse\<newline>'',
          ''ps-t1 = ps-t0ExtraDiffuse\<newline>'']
   \<and> filter is_RENAMED (snd (process_block_full True rename_block None False))
       = [RENAMED None ''ps-t0 = ResourceExtraDiffuse\<newline>'' ''ps-t1 = ResourceExtraDiffuse\<newline>'',
          RENAMED None ''ps-t0 = ps-t0ExtraDiffuse\<newline>'' ''ps-t1 = ps-t0ExtraDiffuse\<newline>'']"
proof -
  have 1: "rename_applies True ''  ps-t0 = ResourceExtraDiffuse\<newline>''" by code_simp
  have 2: "takeWhile isspace ''  ps-t0 = ResourceExtraDiffuse\<newline>'' @ ''ps-t1''
             @ drop 5 (lstrip ''  ps-t0 = ResourceExtraDiffuse\<newline>'')
           = ''  ps-t1 = ResourceExtraDiffuse\<newline>''" by code_simp
  have 3: "filter (\<lambda>l. \<not> RUN_LINE_PATTERN l) (map (renamed_line True) rename_block)
       = [''  ps-t1 = ResourceExtraDiffuse\<newline>'',
          ''ps-t0 = ResourceDiffuse\<newline>'',
          ''ps-t2 = ResourceExtraDiffuse\<newline>'',
          ''ps-t1 = ps-t0ExtraDiffuse\<newline>'']" by code_simp
  have 4: "map (renamed_record None) (filter (rename_applies True) rename_block)
       = [RENAMED None ''ps-t0 = ResourceExtraDiffuse\<newline>'' ''ps-t1 = ResourceExtraDiffuse\<newline>'',
          RENAMED None ''ps-t0 = ps-t0ExtraDiffuse\<newline>'' ''ps-t1 = ps-t0ExtraDiffuse\<newline>'']"
    by code_simp
  from rename_scope [of True None rename_block "''  ps-t0 = ResourceExtraDiffuse\<newline>''"] 1
  show ?thesis by (simp only: 2 3 4 simp_thms)
qed

text \<open>
  C9. A run line is handled only as the canonical string without indentation. In the
  result for a block that is not excluded, every line that matches \<open>RUN_LINE_PATTERN\<close> is
  the correct run line of the block, which has indentation 0: so is every run line that
  was kept and every run line that was inserted, whatever the indentation of the
  \<open>ps-t\<close> line before it. A run line of the block with leading whitespace is never in the
  result and a REMOVED record is made of it, also when it follows the last \<open>ps-t\<close> line
  of its own indentation and names the correct target, as in the witness.
\<close>

theorem directives_only_unindented:
  "list_all (\<lambda>l. RUN_LINE_PATTERN l \<longrightarrow> l = correct_run_of block)
      (fst (process_block_full rn block sec False))
   \<and> indent_of (correct_run_of block) = 0
   \<and> list_all (\<lambda>l. RUN_LINE_PATTERN l \<and> 0 < indent_of l \<longrightarrow>
                  l \<notin> set (fst (process_block_full rn block sec False))
                  \<and> REMOVED sec (strip l) \<in> set (snd (process_block_full rn block sec False)))
        block"
proof -
  let ?cr = "correct_run_of block"
  obtain out rs n where res: "process_block_full rn block sec False
       = (out, map (renamed_record sec) (filter (rename_applies rn) block) @ rs
               @ replicate n (ADDED sec (strip ?cr)))"
    and f: "filter (\<lambda>l. l \<noteq> ?cr) out
         = filter (\<lambda>l. \<not> RUN_LINE_PATTERN l) (map (renamed_line rn) block)"
    and rm: "\<forall>l\<in>set block. RUN_LINE_PATTERN l \<and> l \<noteq> ?cr \<longrightarrow> REMOVED sec (strip l) \<in> set rs"
    using pbf_result [of rn block sec] by blast
  have a: "\<forall>l\<in>set out. RUN_LINE_PATTERN l \<longrightarrow> l = ?cr"
  proof (intro ballI impI, rule ccontr)
    fix l assume l: "l \<in> set out" and r: "RUN_LINE_PATTERN l" and n: "l \<noteq> ?cr"
    then have "l \<in> set (filter (\<lambda>l. l \<noteq> ?cr) out)" by simp
    with f have "\<not> RUN_LINE_PATTERN l" by auto
    with r show False by simp
  qed
  have b: "indent_of ?cr = 0" by (rule correct_run_of_indent)
  have c: "\<forall>l\<in>set block. RUN_LINE_PATTERN l \<and> 0 < indent_of l \<longrightarrow>
             l \<notin> set out \<and> REMOVED sec (strip l) \<in> set rs"
  proof (intro ballI impI)
    fix l assume l: "l \<in> set block" and h: "RUN_LINE_PATTERN l \<and> 0 < indent_of l"
    with b have ne: "l \<noteq> ?cr" by auto
    with a h have "l \<notin> set out" by blast
    moreover from rm l h ne have "REMOVED sec (strip l) \<in> set rs" by blast
    ultimately show "l \<notin> set out \<and> REMOVED sec (strip l) \<in> set rs" by simp
  qed
  from a b c show ?thesis by (simp add: res list_all_iff)
qed

theorem directives_only_unindented_witness:
  "RUN_LINE_PATTERN (''  run = '' @ ORFix_path @ ''NNFix\<newline>'')
   \<and> 0 < indent_of (''  run = '' @ ORFix_path @ ''NNFix\<newline>'')
   \<and> correct_run_of indented_run_block = run_NNFix
   \<and> ''  run = '' @ ORFix_path @ ''NNFix\<newline>''
        \<notin> set (fst (process_block_full True indented_run_block None False))
   \<and> REMOVED None (''run = '' @ ORFix_path @ ''NNFix'')
        \<in> set (snd (process_block_full True indented_run_block None False))
   \<and> list_all (\<lambda>l. RUN_LINE_PATTERN l \<longrightarrow> l = run_NNFix)
        (fst (process_block_full True indented_run_block None False))"
proof -
  have 1: "RUN_LINE_PATTERN (''  run = '' @ ORFix_path @ ''NNFix\<newline>'')" by code_simp
  have 2: "indent_of (''  run = '' @ ORFix_path @ ''NNFix\<newline>'') = 2" by code_simp
  have 3: "correct_run_of indented_run_block = run_NNFix" by code_simp
  have 4: "strip (''  run = '' @ ORFix_path @ ''NNFix\<newline>'') = ''run = '' @ ORFix_path @ ''NNFix''"
    by code_simp
  have 5: "\<not> RUN_LINE_PATTERN ''  ps-t0 = ResourceDiffuse\<newline>''" by code_simp
  have 6: "indented_run_block =
     [''  ps-t0 = ResourceDiffuse\<newline>'', ''  run = '' @ ORFix_path @ ''NNFix\<newline>'']"
    by (simp add: indented_run_block_def)
  have "list_all (\<lambda>l. RUN_LINE_PATTERN l \<and> 0 < indent_of l \<longrightarrow>
                  l \<notin> set (fst (process_block_full True indented_run_block None False))
                  \<and> REMOVED None (strip l) \<in> set (snd (process_block_full True indented_run_block None False)))
        [''  ps-t0 = ResourceDiffuse\<newline>'', ''  run = '' @ ORFix_path @ ''NNFix\<newline>'']"
    using directives_only_unindented [of indented_run_block True None] by (simp only: 6)
  then have "''  run = '' @ ORFix_path @ ''NNFix\<newline>''
        \<notin> set (fst (process_block_full True indented_run_block None False))
      \<and> REMOVED None (''run = '' @ ORFix_path @ ''NNFix'')
        \<in> set (snd (process_block_full True indented_run_block None False))"
    using 1 2 4 by simp
  moreover have "list_all (\<lambda>l. RUN_LINE_PATTERN l \<longrightarrow> l = run_NNFix)
        (fst (process_block_full True indented_run_block None False))"
    using directives_only_unindented [of indented_run_block True None] by (simp only: 3)
  ultimately show ?thesis using 1 2 3 by simp
qed

section \<open>The block transformer on the examples\<close>

text \<open>
  C6. The block \<open>if $swapvar == 0\<close>, \<open>ps-t0 = ResourceExtraDiffuse\<close>,
  \<open>ps-t1 = ResourceNormalMap\<close>, \<open>endif\<close>, not excluded, with the renaming enabled: the
  \<open>ps-t0\<close> line becomes a \<open>ps-t1\<close> line, the ORFix run line is inserted right after the
  last \<open>ps-t\<close> line and before \<open>endif\<close>, and the changes are exactly one RENAMED and one
  ADDED record, for every section name.
\<close>

theorem example_block_renamed_and_run_added:
  "process_block_full True example_block sec False =
     ([''if $swapvar == 0\<newline>'',
       ''ps-t1 = ResourceExtraDiffuse\<newline>'',
       ''ps-t1 = ResourceNormalMap\<newline>'',
       run_ORFix,
       ''endif\<newline>''],
      [RENAMED sec ''ps-t0 = ResourceExtraDiffuse\<newline>''
                   ''ps-t1 = ResourceExtraDiffuse\<newline>'',
       ADDED sec (''run = '' @ ORFix_path @ ''ORFix'')])"
  by code_simp

theorem example_block_renamed_and_run_added_witness:
  "process_block_full True example_block (Some ''[TextureOverrideBody]'') False =
     ([''if $swapvar == 0\<newline>'',
       ''ps-t1 = ResourceExtraDiffuse\<newline>'',
       ''ps-t1 = ResourceNormalMap\<newline>'',
       run_ORFix,
       ''endif\<newline>''],
      [RENAMED (Some ''[TextureOverrideBody]'') ''ps-t0 = ResourceExtraDiffuse\<newline>''
                   ''ps-t1 = ResourceExtraDiffuse\<newline>'',
       ADDED (Some ''[TextureOverrideBody]'') (''run = '' @ ORFix_path @ ''ORFix'')])"
  using example_block_renamed_and_run_added [of "Some ''[TextureOverrideBody]''"] by simp

text \<open>
  C4. The same block with a stray NNFix run line after the \<open>ps-t0\<close> line. The stray
  line is removed and one REMOVED and one ADDED record follow the RENAMED record, but the
  ORFix run line is inserted after \<open>endif\<close>, at the end of the block, and not right after
  the last \<open>ps-t\<close> line: the index recorded for that line is one too high once the stray
  line before it is gone.
\<close>

theorem example_block_stray_run_after_endif:
  "process_block_full True example_block_stray sec False =
     ([''if $swapvar == 0\<newline>'',
       ''ps-t1 = ResourceExtraDiffuse\<newline>'',
       ''ps-t1 = ResourceNormalMap\<newline>'',
       ''endif\<newline>'',
       run_ORFix],
      [RENAMED sec ''ps-t0 = ResourceExtraDiffuse\<newline>''
                   ''ps-t1 = ResourceExtraDiffuse\<newline>'',
       REMOVED sec (''run = '' @ ORFix_path @ ''NNFix''),
       ADDED sec (''run = '' @ ORFix_path @ ''ORFix'')])"
  by code_simp

text \<open>
  C2. A second application to the result of the first one is not the identity on that
  block: the run line that the first application put after \<open>endif\<close> is removed as
  misplaced and a new one is inserted after the last \<open>ps-t\<close> line, with one REMOVED and
  one ADDED record.
\<close>

theorem second_pass_changes_the_block:
  "process_block_full True (fst (process_block_full True example_block_stray sec False)) sec False =
     ([''if $swapvar == 0\<newline>'',
       ''ps-t1 = ResourceExtraDiffuse\<newline>'',
       ''ps-t1 = ResourceNormalMap\<newline>'',
       run_ORFix,
       ''endif\<newline>''],
      [REMOVED sec (''run = '' @ ORFix_path @ ''ORFix''),
       ADDED sec (''run = '' @ ORFix_path @ ''ORFix'')])"
  by code_simp

text \<open>
  C1. A block with one \<open>ps-t\<close> line, at indentation 0, and a run line before it. After
  the transformation the line that follows the \<open>ps-t\<close> line is the comment, and the
  NNFix run line, the correct one for this block, is the last line.
\<close>

theorem run_line_not_after_last_slot:
  "process_block_full rn stale_index_block sec False =
     ([''ps-t0 = ResourceDiffuse\<newline>'', ''; comment\<newline>'', run_NNFix],
      [REMOVED sec (''run = '' @ ORFix_path @ ''ORFix''),
       ADDED sec (''run = '' @ ORFix_path @ ''NNFix'')])
   \<and> correct_run_of stale_index_block = run_NNFix"
proof -
  have "process_block_full True stale_index_block sec False =
     ([''ps-t0 = ResourceDiffuse\<newline>'', ''; comment\<newline>'', run_NNFix],
      [REMOVED sec (''run = '' @ ORFix_path @ ''ORFix''),
       ADDED sec (''run = '' @ ORFix_path @ ''NNFix'')])"
    by code_simp
  moreover have "process_block_full False stale_index_block sec False =
     ([''ps-t0 = ResourceDiffuse\<newline>'', ''; comment\<newline>'', run_NNFix],
      [REMOVED sec (''run = '' @ ORFix_path @ ''ORFix''),
       ADDED sec (''run = '' @ ORFix_path @ ''NNFix'')])"
    by code_simp
  moreover have "correct_run_of stale_index_block = run_NNFix"
    by code_simp
  ultimately show ?thesis by (cases rn) simp_all
qed

end
